theory Spec2Isabelle
  imports Complex_Main "HOL-Library.Multiset" "HOL-Library.Product_Lexorder"
begin

section \<open>Strings of the interpreter\<close>

text \<open>
  A Python \<open>str\<close> is a sequence of Unicode code points, not of bytes: the line cleaner
  of \<open>process_tarkov_raid.py\<close> searches for the three code points U+00E2, U+20AC,
  U+201D, two of which do not fit a byte.  A character is therefore modelled by its code
  point and a string by the list of its code points.  \<open>ustr\<close> reads an ASCII literal.
\<close>

type_synonym uchar = nat
type_synonym ustring = "nat list"

definition ustr :: "string \<Rightarrow> ustring" where
  "ustr s = map of_char s"

datatype error = ValueError | IndexError

subsection \<open>Character classes\<close>

text \<open>
  \<open>str.isspace\<close> on one character (the whitespace of \<open>str.strip\<close> and
  \<open>str.split\<close>): the code points with bidirectional type WS, B or S or category Zs.
\<close>

definition isspace :: "uchar \<Rightarrow> bool" where
  "isspace c \<longleftrightarrow>
     (9 \<le> c \<and> c \<le> 13) \<or> (28 \<le> c \<and> c \<le> 32) \<or> c = 133 \<or> c = 160 \<or> c = 5760 \<or>
     (8192 \<le> c \<and> c \<le> 8202) \<or> c = 8232 \<or> c = 8233 \<or> c = 8239 \<or> c = 8287 \<or> c = 12288"

text \<open>The line boundaries of \<open>str.splitlines\<close>.\<close>

definition is_linebreak :: "uchar \<Rightarrow> bool" where
  "is_linebreak c \<longleftrightarrow>
     (10 \<le> c \<and> c \<le> 13) \<or> (28 \<le> c \<and> c \<le> 30) \<or> c = 133 \<or> c = 8232 \<or> c = 8233"

text \<open>
  The decimal digits (category Nd) come in runs of ten consecutive code points, zero
  first; the list holds the code point of each zero (Unicode 14, the table of
  CPython 3.11).
\<close>

definition decimal_zeros :: "uchar list" where
  "decimal_zeros =
    [48, 1632, 1776, 1984, 2406, 2534, 2662, 2790, 2918, 3046, 3174, 3302, 3430, 3558,
     3664, 3792, 3872, 4160, 4240, 6112, 6160, 6470, 6608, 6784, 6800, 6992, 7088, 7232,
     7248, 42528, 43216, 43264, 43472, 43504, 43600, 44016, 65296, 66720, 68912, 69734,
     69872, 69942, 70096, 70384, 70736, 70864, 71248, 71360, 71472, 71904, 72016, 72784,
     73040, 73120, 92768, 92864, 93008, 120782, 120792, 120802, 120812, 120822, 123200,
     123632, 125264, 130032]"

definition todecimal :: "uchar \<Rightarrow> nat option" where
  "todecimal c =
     (case filter (\<lambda>z. z \<le> c \<and> c < z + 10) decimal_zeros of
        [] \<Rightarrow> None
      | z # _ \<Rightarrow> Some (c - z))"

subsection \<open>Methods of \<open>str\<close>\<close>

text \<open>\<open>s.strip()\<close>: leading and trailing whitespace removed.\<close>

definition str_strip :: "ustring \<Rightarrow> ustring" where
  "str_strip s = rev (dropWhile isspace (rev (dropWhile isspace s)))"

text \<open>
  \<open>s.split()\<close>: the maximal runs of non-whitespace characters, in order.  \<open>cur\<close> is the
  token being read.
\<close>

fun str_split_from :: "ustring \<Rightarrow> ustring \<Rightarrow> ustring list" where
  "str_split_from cur [] = (if cur = [] then [] else [cur])"
| "str_split_from cur (c # cs) =
     (if isspace c
      then (if cur = [] then str_split_from [] cs else cur # str_split_from [] cs)
      else str_split_from (cur @ [c]) cs)"

definition str_split :: "ustring \<Rightarrow> ustring list" where
  "str_split s = str_split_from [] s"

text \<open>
  \<open>s.split(sep)\<close> for a separator of one character: every occurrence cuts, empty
  pieces are kept.
\<close>

fun str_split_sep :: "uchar \<Rightarrow> ustring \<Rightarrow> ustring list" where
  "str_split_sep sep [] = [[]]"
| "str_split_sep sep (c # cs) =
     (if c = sep then [] # str_split_sep sep cs
      else (case str_split_sep sep cs of
              [] \<Rightarrow> [[c]]
            | p # ps \<Rightarrow> (c # p) # ps))"

text \<open>
  \<open>s.splitlines()\<close>: cut at every line boundary, \<open>\r\n\<close> counting as one; no empty
  last line after a final boundary.
\<close>

function str_splitlines_from :: "ustring \<Rightarrow> ustring \<Rightarrow> ustring list" where
  "str_splitlines_from cur [] = (if cur = [] then [] else [cur])"
| "str_splitlines_from cur (c # cs) =
     (if is_linebreak c
      then cur # str_splitlines_from []
                   (if c = 13 \<and> cs \<noteq> [] \<and> hd cs = 10 then tl cs else cs)
      else str_splitlines_from (cur @ [c]) cs)"
  by pat_completeness auto
termination
  by (relation "measure (\<lambda>(cur, s). length s)") auto

definition str_splitlines :: "ustring \<Rightarrow> ustring list" where
  "str_splitlines s = str_splitlines_from [] s"

text \<open>
  \<open>s.replace(old, new)\<close>: the occurrences of \<open>old\<close> are replaced from left to right,
  without overlap.  An empty \<open>old\<close> matches before every character and at the end.
\<close>

function replace_nonempty :: "ustring \<Rightarrow> ustring \<Rightarrow> ustring \<Rightarrow> ustring" where
  "replace_nonempty [] old new = []"
| "replace_nonempty (c # cs) old new =
     (if old \<noteq> [] \<and> take (length old) (c # cs) = old
      then new @ replace_nonempty (drop (length old) (c # cs)) old new
      else c # replace_nonempty cs old new)"
  by pat_completeness auto
termination
  by (relation "measure (\<lambda>(s, old, new). length s)") auto

definition str_replace :: "ustring \<Rightarrow> ustring \<Rightarrow> ustring \<Rightarrow> ustring" where
  "str_replace s old new =
     (if old = [] then new @ concat (map (\<lambda>c. c # new) s)
      else replace_nonempty s old new)"

text \<open>\<open>sep.join(parts)\<close>.\<close>

fun str_join :: "ustring \<Rightarrow> ustring list \<Rightarrow> ustring" where
  "str_join sep [] = []"
| "str_join sep [p] = p"
| "str_join sep (p # q # ps) = p @ sep @ str_join sep (q # ps)"

text \<open>\<open>xs[i]\<close> for an index that is not negative: out of range raises.\<close>

definition list_index :: "'a list \<Rightarrow> nat \<Rightarrow> error + 'a" where
  "list_index xs i = (if i < length xs then Inr (xs ! i) else Inl IndexError)"

subsection \<open>\<open>int(s)\<close>\<close>

text \<open>
  \<open>int\<close> on a string, base ten, as CPython 3.11 reads it: whitespace around the number
  is skipped (below U+007F only the six characters of C's \<open>isspace\<close>, from there on the
  Unicode whitespace), one sign may precede the digits, the digits are decimal digits of
  any script, and a single underscore may stand between two digits.  More than
  \<open>int_max_str_digits\<close> digits are refused (the default of
  \<open>sys.int_max_str_digits\<close>).  Everything else raises \<open>ValueError\<close>.
\<close>

definition int_space :: "uchar \<Rightarrow> bool" where
  "int_space c \<longleftrightarrow> (9 \<le> c \<and> c \<le> 13) \<or> c = 32 \<or> (127 \<le> c \<and> isspace c)"

definition int_max_str_digits :: nat where
  "int_max_str_digits = 4300"

text \<open>\<open>digits_value acc s\<close>: the rest of the digits, after a digit has been read.\<close>

fun digits_value :: "nat \<Rightarrow> ustring \<Rightarrow> nat option" where
  "digits_value acc [] = Some acc"
| "digits_value acc [c] =
     (case todecimal c of None \<Rightarrow> None | Some v \<Rightarrow> Some (acc * 10 + v))"
| "digits_value acc (c # d # ds) =
     (if c = 95
      then (case todecimal d of
              None \<Rightarrow> None
            | Some v \<Rightarrow> digits_value (acc * 10 + v) ds)
      else (case todecimal c of
              None \<Rightarrow> None
            | Some v \<Rightarrow> digits_value (acc * 10 + v) (d # ds)))"

definition parse_digits :: "ustring \<Rightarrow> nat option" where
  "parse_digits s =
     (case s of
        [] \<Rightarrow> None
      | c # cs \<Rightarrow>
          (if int_max_str_digits < length (filter (\<lambda>x. x \<noteq> 95) s) then None
           else (case todecimal c of
                   None \<Rightarrow> None
                 | Some v \<Rightarrow> digits_value v cs)))"

definition py_int :: "ustring \<Rightarrow> error + int" where
  "py_int s =
     (let t = rev (dropWhile int_space (rev (dropWhile int_space s)));
          negative = (t \<noteq> [] \<and> hd t = 45);
          body = (if t \<noteq> [] \<and> (hd t = 43 \<or> hd t = 45) then tl t else t)
      in case parse_digits body of
           None \<Rightarrow> Inl ValueError
         | Some n \<Rightarrow> Inr (if negative then - int n else int n))"

section \<open>Timestamp parser\<close>

text \<open>
  \<^verbatim>\<open>
  def parse_timestamp(timestamp):
      if ":" in timestamp:
          minutes, seconds = map(int, timestamp.split(':'))
          return minutes * 60 + seconds
      else:
          return int(timestamp)
  \<close>
  The unpacking into two names raises \<open>ValueError\<close> unless the split has exactly two
  pieces, and so does \<open>int\<close> on a piece that is not a number.
\<close>

definition parse_timestamp :: "ustring \<Rightarrow> error + int" where
  "parse_timestamp timestamp =
     (if 58 \<in> set timestamp
      then (case str_split_sep 58 timestamp of
              [m, s] \<Rightarrow>
                (case py_int m of
                   Inl e \<Rightarrow> Inl e
                 | Inr minutes \<Rightarrow>
                     (case py_int s of
                        Inl e \<Rightarrow> Inl e
                      | Inr seconds \<Rightarrow> Inr (minutes * 60 + seconds)))
            | _ \<Rightarrow> Inl ValueError)
      else py_int timestamp)"

section \<open>Line cleaner\<close>

text \<open>
  \<^verbatim>\<open>
  def clean_ocr_line(line):
      line = line.replace("O", "0")
      line = line.replace("Q", "0")
      line = line.replace(<U+00E2 U+20AC U+201D>, "-")
      line = line.replace("=", "-")
      line = re.sub(r'[^a-zA-Z0-9 :.,\-]', '', line)
      return line.strip()
  \<close>
  The regular expression is one negated character class, so the substitution deletes
  exactly the characters outside the class.
\<close>

definition in_class :: "uchar \<Rightarrow> bool" where
  "in_class c \<longleftrightarrow>
     (97 \<le> c \<and> c \<le> 122) \<or> (65 \<le> c \<and> c \<le> 90) \<or> (48 \<le> c \<and> c \<le> 57) \<or>
     c = 32 \<or> c = 58 \<or> c = 46 \<or> c = 44 \<or> c = 45"

definition re_sub_outside_class :: "ustring \<Rightarrow> ustring" where
  "re_sub_outside_class line = filter in_class line"

definition clean_ocr_line :: "ustring \<Rightarrow> ustring" where
  "clean_ocr_line line =
     (let line = str_replace line (ustr ''O'') (ustr ''0'');
          line = str_replace line (ustr ''Q'') (ustr ''0'');
          line = str_replace line [226, 8364, 8221] (ustr ''-'');
          line = str_replace line (ustr ''='') (ustr ''-'');
          line = re_sub_outside_class line
      in str_strip line)"

section \<open>Sequence similarity\<close>

text \<open>
  \<open>fuzzy_match\<close> builds \<open>SequenceMatcher(None, text, pattern)\<close> of the standard
  library's \<open>difflib\<close> and asks for its \<open>ratio()\<close>.  No junk predicate is given, so
  the matcher's junk set is empty and the two loops of \<open>find_longest_match\<close> that
  extend a block over junk never run a step; they are left out.  Everything else of the
  computation is below, with the library's names.
\<close>

subsection \<open>The index of the second sequence\<close>

text \<open>
  \<open>b2j\<close> maps a character to the ascending list of its positions in \<open>b\<close>.  With
  \<open>autojunk\<close> (the default) and \<open>b\<close> of 200 characters or more, a character with
  more than \<open>len(b) // 100 + 1\<close> positions is deleted from the index; looking a
  missing character up gives the empty list.
\<close>

definition b2j :: "ustring \<Rightarrow> uchar \<Rightarrow> nat list" where
  "b2j b elt =
     (let indices = filter (\<lambda>j. b ! j = elt) [0..<length b]
      in if 200 \<le> length b \<and> length b div 100 + 1 < length indices then []
         else indices)"

subsection \<open>\<open>find_longest_match\<close>\<close>

text \<open>
  \<^verbatim>\<open>
  besti, bestj, bestsize = alo, blo, 0
  j2len = {}
  for i in range(alo, ahi):
      newj2len = {}
      for j in b2j.get(a[i], nothing):
          if j < blo: continue
          if j >= bhi: break
          k = newj2len[j] = j2len.get(j-1, 0) + 1
          if k > bestsize:
              besti, bestj, bestsize = i-k+1, j-k+1, k
      j2len = newj2len
  \<close>
  The dictionaries are maps from positions to lengths.  No key is negative, so
  \<open>j2len.get(-1, 0)\<close> is 0; the model says so for \<open>j = 0\<close>, where the subtraction of
  natural numbers would read key 0 instead.  \<open>match_row\<close> is the inner loop over the
  positions of \<open>a[i]\<close>, \<open>match_rows\<close> the outer loop over \<open>i\<close>.
\<close>

type_synonym block = "nat \<times> nat \<times> nat"

fun match_row ::
  "(nat \<rightharpoonup> nat) \<Rightarrow> nat \<Rightarrow> nat \<Rightarrow> nat \<Rightarrow> nat list \<Rightarrow> (nat \<rightharpoonup> nat) \<times> block \<Rightarrow>
   (nat \<rightharpoonup> nat) \<times> block" where
  "match_row j2len i blo bhi [] st = st"
| "match_row j2len i blo bhi (j # js) (newj2len, besti, bestj, bestsize) =
     (if j < blo then match_row j2len i blo bhi js (newj2len, besti, bestj, bestsize)
      else if bhi \<le> j then (newj2len, besti, bestj, bestsize)
      else
        (let k = (if j = 0 then 0
                  else (case j2len (j - 1) of None \<Rightarrow> 0 | Some v \<Rightarrow> v)) + 1;
             newj2len = newj2len(j \<mapsto> k)
         in if bestsize < k
            then match_row j2len i blo bhi js (newj2len, i + 1 - k, j + 1 - k, k)
            else match_row j2len i blo bhi js (newj2len, besti, bestj, bestsize)))"

fun match_rows ::
  "ustring \<Rightarrow> ustring \<Rightarrow> nat \<Rightarrow> nat \<Rightarrow> nat list \<Rightarrow> (nat \<rightharpoonup> nat) \<times> block \<Rightarrow>
   (nat \<rightharpoonup> nat) \<times> block" where
  "match_rows a b blo bhi [] st = st"
| "match_rows a b blo bhi (i # is) (j2len, best) =
     match_rows a b blo bhi is
       (match_row j2len i blo bhi (b2j b (a ! i)) (Map.empty, best))"

text \<open>
  \<^verbatim>\<open>
  while besti > alo and bestj > blo and a[besti-1] == b[bestj-1]:
      besti, bestj, bestsize = besti-1, bestj-1, bestsize+1
  while besti+bestsize < ahi and bestj+bestsize < bhi and \
        a[besti+bestsize] == b[bestj+bestsize]:
      bestsize += 1
  \<close>
\<close>

function extend_left :: "ustring \<Rightarrow> ustring \<Rightarrow> nat \<Rightarrow> nat \<Rightarrow> block \<Rightarrow> block" where
  "extend_left a b alo blo (besti, bestj, bestsize) =
     (if alo < besti \<and> blo < bestj \<and> a ! (besti - 1) = b ! (bestj - 1)
      then extend_left a b alo blo (besti - 1, bestj - 1, bestsize + 1)
      else (besti, bestj, bestsize))"
  by pat_completeness auto
termination
  by (relation "measure (\<lambda>(a, b, alo, blo, besti, bestj, bestsize). besti)") auto

function extend_right :: "ustring \<Rightarrow> ustring \<Rightarrow> nat \<Rightarrow> nat \<Rightarrow> block \<Rightarrow> block" where
  "extend_right a b ahi bhi (besti, bestj, bestsize) =
     (if besti + bestsize < ahi \<and> bestj + bestsize < bhi \<and>
         a ! (besti + bestsize) = b ! (bestj + bestsize)
      then extend_right a b ahi bhi (besti, bestj, bestsize + 1)
      else (besti, bestj, bestsize))"
  by pat_completeness auto
termination
  by (relation "measure (\<lambda>(a, b, ahi, bhi, besti, bestj, bestsize). ahi - (besti + bestsize))")
     auto

declare extend_left.simps [simp del] extend_right.simps [simp del]

definition find_longest_match ::
  "ustring \<Rightarrow> ustring \<Rightarrow> nat \<Rightarrow> nat \<Rightarrow> nat \<Rightarrow> nat \<Rightarrow> block" where
  "find_longest_match a b alo ahi blo bhi =
     extend_right a b ahi bhi
       (extend_left a b alo blo
          (snd (match_rows a b blo bhi [alo..<ahi] (Map.empty, alo, blo, 0))))"

subsection \<open>What \<open>find_longest_match\<close> returns\<close>

text \<open>
  The block returned lies inside the region it was asked about and its two sides are
  equal, character by character.  \<open>run_ok\<close> describes an entry \<open>j \<mapsto> k\<close> of
  \<open>j2len\<close> before row \<open>i\<close>: a common run of \<open>k\<close> characters ending at \<open>a[i-1]\<close> and
  \<open>b[j]\<close>.  It also shows that \<open>i-k+1\<close> and \<open>j-k+1\<close> are never negative, so the
  subtraction of natural numbers in \<open>match_row\<close> is the subtraction of the source.
\<close>

definition run_ok :: "ustring \<Rightarrow> ustring \<Rightarrow> nat \<Rightarrow> nat \<Rightarrow> nat \<Rightarrow> nat \<Rightarrow> nat \<Rightarrow> nat \<Rightarrow> bool" where
  "run_ok a b alo blo bhi i j k \<longleftrightarrow>
     1 \<le> k \<and> alo + k \<le> i \<and> blo + k \<le> j + 1 \<and> j < bhi \<and>
     (\<forall>t<k. a ! (i - k + t) = b ! (j + 1 - k + t))"

definition j2len_ok :: "ustring \<Rightarrow> ustring \<Rightarrow> nat \<Rightarrow> nat \<Rightarrow> nat \<Rightarrow> nat \<Rightarrow> (nat \<rightharpoonup> nat) \<Rightarrow> bool" where
  "j2len_ok a b alo blo bhi i m \<longleftrightarrow> (\<forall>j k. m j = Some k \<longrightarrow> run_ok a b alo blo bhi i j k)"

definition best_ok :: "ustring \<Rightarrow> ustring \<Rightarrow> nat \<Rightarrow> nat \<Rightarrow> nat \<Rightarrow> nat \<Rightarrow> block \<Rightarrow> bool" where
  "best_ok a b alo blo bhi i blk \<longleftrightarrow>
     (case blk of (besti, bestj, bestsize) \<Rightarrow>
        alo \<le> besti \<and> blo \<le> bestj \<and>
        (bestsize = 0 \<and> besti = alo \<and> bestj = blo \<or>
         besti + bestsize \<le> i \<and> bestj + bestsize \<le> bhi) \<and>
        (\<forall>t<bestsize. a ! (besti + t) = b ! (bestj + t)))"

lemma b2j_sound: "j \<in> set (b2j b elt) \<Longrightarrow> b ! j = elt"
  by (auto simp: b2j_def Let_def split: if_splits)

lemma run_extend:
  assumes prev: "j = 0 \<or> j2len (j - 1) = None \<or> (\<exists>v. j2len (j - 1) = Some v \<and> run_ok a b alo blo bhi i (j - 1) v)"
    and j: "blo \<le> j" "j < bhi" and i: "alo \<le> i" and eq: "b ! j = a ! i"
    and k: "k = (if j = 0 then 0 else (case j2len (j - 1) of None \<Rightarrow> 0 | Some v \<Rightarrow> v)) + 1"
  shows "run_ok a b alo blo bhi (i + 1) j k"
proof (cases "j = 0 \<or> j2len (j - 1) = None")
  case True
  then have "k = 1" using k by auto
  then show ?thesis using j i eq by (simp add: run_ok_def)
next
  case False
  then obtain v where v: "j2len (j - 1) = Some v" "run_ok a b alo blo bhi i (j - 1) v" and j0: "j \<noteq> 0"
    using prev by auto
  then have kv: "k = v + 1" using k by simp
  have b1: "1 \<le> v" "alo + v \<le> i" "blo + v \<le> j"
    and c: "\<forall>t<v. a ! (i - v + t) = b ! (j - v + t)"
    using v(2) j0 by (auto simp: run_ok_def)
  have "a ! (i + 1 - k + t) = b ! (j + 1 - k + t)" if "t < k" for t
  proof (cases "t < v")
    case True
    then show ?thesis using c kv by simp
  next
    case False
    then have "t = v" using that kv by simp
    then show ?thesis using kv eq b1 by simp
  qed
  then show ?thesis using kv b1 j by (simp add: run_ok_def)
qed

lemma run_best:
  "run_ok a b alo blo bhi (i + 1) j k \<Longrightarrow> best_ok a b alo blo bhi (i + 1) (i + 1 - k, j + 1 - k, k)"
  by (auto simp: run_ok_def best_ok_def)

lemma match_row_ok:
  assumes "j2len_ok a b alo blo bhi i j2len" "alo \<le> i" "\<forall>j\<in>set js. b ! j = a ! i"
    and "j2len_ok a b alo blo bhi (i + 1) newj2len" "best_ok a b alo blo bhi (i + 1) best"
    and "match_row j2len i blo bhi js (newj2len, best) = (m', best')"
  shows "j2len_ok a b alo blo bhi (i + 1) m' \<and> best_ok a b alo blo bhi (i + 1) best'"
  using assms
proof (induction js arbitrary: newj2len best)
  case Nil
  then show ?case by simp
next
  case (Cons j js)
  obtain besti bestj bestsize where best: "best = (besti, bestj, bestsize)"
    by (cases best) auto
  show ?case
  proof (cases "j < blo")
    case True
    with Cons best show ?thesis by simp
  next
    case lo: False
    show ?thesis
    proof (cases "bhi \<le> j")
      case True
      with Cons.prems lo best show ?thesis by simp
    next
      case hi: False
      define k where "k = (if j = 0 then 0 else (case j2len (j - 1) of None \<Rightarrow> 0 | Some v \<Rightarrow> v)) + 1"
      have prev: "j = 0 \<or> j2len (j - 1) = None \<or>
                  (\<exists>v. j2len (j - 1) = Some v \<and> run_ok a b alo blo bhi i (j - 1) v)"
        using Cons.prems(1) by (cases "j2len (j - 1)") (auto simp: j2len_ok_def)
      have run: "run_ok a b alo blo bhi (i + 1) j k"
        using prev lo hi Cons.prems(2,3) k_def by (intro run_extend [where ?j2len = j2len]) auto
      have new: "j2len_ok a b alo blo bhi (i + 1) (newj2len(j \<mapsto> k))"
        using Cons.prems(4) run by (auto simp: j2len_ok_def)
      have rest: "\<forall>j\<in>set js. b ! j = a ! i" using Cons.prems(3) by simp
      show ?thesis
      proof (cases "bestsize < k")
        case True
        then have "match_row j2len i blo bhi js (newj2len(j \<mapsto> k), i + 1 - k, j + 1 - k, k) = (m', best')"
          using Cons.prems(6) lo hi best by (simp add: k_def Let_def)
        from Cons.IH [OF Cons.prems(1,2) rest new run_best [OF run] this]
        show ?thesis .
      next
        case False
        then have "match_row j2len i blo bhi js (newj2len(j \<mapsto> k), best) = (m', best')"
          using Cons.prems(6) lo hi best by (simp add: k_def Let_def)
        from Cons.IH [OF Cons.prems(1,2) rest new Cons.prems(5) this]
        show ?thesis .
      qed
    qed
  qed
qed

lemma best_ok_mono: "best_ok a b alo blo bhi i blk \<Longrightarrow> i \<le> i' \<Longrightarrow> best_ok a b alo blo bhi i' blk"
  by (auto simp: best_ok_def)

lemma match_rows_ok:
  assumes "j2len_ok a b alo blo bhi i j2len" "best_ok a b alo blo bhi i best" "alo \<le> i"
  shows "best_ok a b alo blo bhi (i + n) (snd (match_rows a b blo bhi [i..<i + n] (j2len, best)))"
  using assms
proof (induction n arbitrary: i j2len best)
  case 0
  then show ?case by simp
next
  case (Suc n)
  obtain m' best' where row: "match_row j2len i blo bhi (b2j b (a ! i)) (Map.empty, best) = (m', best')"
    by (cases "match_row j2len i blo bhi (b2j b (a ! i)) (Map.empty, best)") auto
  have "j2len_ok a b alo blo bhi (i + 1) m' \<and> best_ok a b alo blo bhi (i + 1) best'"
  proof (rule match_row_ok [OF Suc.prems(1) Suc.prems(3) _ _ _ row])
    show "\<forall>j\<in>set (b2j b (a ! i)). b ! j = a ! i" by (auto dest: b2j_sound)
    show "j2len_ok a b alo blo bhi (i + 1) Map.empty" by (simp add: j2len_ok_def)
    show "best_ok a b alo blo bhi (i + 1) best" using Suc.prems(2) by (rule best_ok_mono) simp
  qed
  then have "best_ok a b alo blo bhi (i + 1 + n) (snd (match_rows a b blo bhi [i + 1..<i + 1 + n] (m', best')))"
    using Suc.prems(3) by (intro Suc.IH) auto
  moreover have "[i..<i + Suc n] = i # [i + 1..<i + 1 + n]"
    by (simp add: upt_conv_Cons)
  ultimately show ?case using row by simp
qed

lemma extend_left_ok:
  "best_ok a b alo blo bhi ahi blk \<Longrightarrow> best_ok a b alo blo bhi ahi (extend_left a b alo blo blk)"
proof (induction a b alo blo blk rule: extend_left.induct)
  case (1 a b alo blo besti bestj bestsize)
  show ?case
  proof (cases "alo < besti \<and> blo < bestj \<and> a ! (besti - 1) = b ! (bestj - 1)")
    case True
    have "a ! (besti - 1 + t) = b ! (bestj - 1 + t)" if "t < bestsize + 1" for t
    proof (cases t)
      case 0
      then show ?thesis using True by simp
    next
      case (Suc u)
      then have "u < bestsize" using that by simp
      then have "a ! (besti + u) = b ! (bestj + u)" using 1(2) by (simp add: best_ok_def)
      then show ?thesis using Suc True by simp
    qed
    moreover have "alo \<le> besti - 1" "blo \<le> bestj - 1"
      "besti - 1 + (bestsize + 1) \<le> ahi \<and> bestj - 1 + (bestsize + 1) \<le> bhi"
      using 1(2) True by (auto simp: best_ok_def)
    ultimately have "best_ok a b alo blo bhi ahi (besti - 1, bestj - 1, bestsize + 1)"
      unfolding best_ok_def by simp
    then have "best_ok a b alo blo bhi ahi
                 (extend_left a b alo blo (besti - 1, bestj - 1, bestsize + 1))"
      using True by (intro 1(1)) simp_all
    then show ?thesis using True by (subst extend_left.simps) simp
  next
    case False
    then show ?thesis using 1(2) by (subst extend_left.simps) auto
  qed
qed

lemma extend_right_ok:
  "best_ok a b alo blo bhi ahi blk \<Longrightarrow> best_ok a b alo blo bhi ahi (extend_right a b ahi bhi blk)"
proof (induction a b ahi bhi blk rule: extend_right.induct)
  case (1 a b ahi bhi besti bestj bestsize)
  show ?case
  proof (cases "besti + bestsize < ahi \<and> bestj + bestsize < bhi \<and>
                a ! (besti + bestsize) = b ! (bestj + bestsize)")
    case True
    have "a ! (besti + t) = b ! (bestj + t)" if "t < bestsize + 1" for t
    proof (cases "t < bestsize")
      case True
      then show ?thesis using 1(2) by (simp add: best_ok_def)
    next
      case False
      then have "t = bestsize" using that by simp
      then show ?thesis using True by simp
    qed
    moreover have "alo \<le> besti" "blo \<le> bestj"
      using 1(2) by (auto simp: best_ok_def)
    ultimately have "best_ok a b alo blo bhi ahi (besti, bestj, bestsize + 1)"
      unfolding best_ok_def using True by simp
    then have "best_ok a b alo blo bhi ahi
                 (extend_right a b ahi bhi (besti, bestj, bestsize + 1))"
      using True by (intro 1(1)) simp_all
    then show ?thesis using True by (subst extend_right.simps) simp
  next
    case False
    then show ?thesis using 1(2) by (subst extend_right.simps) auto
  qed
qed

lemma find_longest_match_ok:
  "best_ok a b alo blo bhi ahi (find_longest_match a b alo ahi blo bhi)"
proof (cases "alo \<le> ahi")
  case True
  then obtain n where n: "ahi = alo + n" using le_Suc_ex by blast
  have "best_ok a b alo blo bhi (alo + n)
          (snd (match_rows a b blo bhi [alo..<alo + n] (Map.empty, alo, blo, 0)))"
    by (rule match_rows_ok) (simp_all add: j2len_ok_def best_ok_def)
  then show ?thesis
    unfolding find_longest_match_def n by (intro extend_right_ok extend_left_ok)
next
  case False
  then have "[alo..<ahi] = []" by simp
  moreover have "best_ok a b alo blo bhi ahi (alo, blo, 0)" by (simp add: best_ok_def)
  ultimately show ?thesis
    unfolding find_longest_match_def by (auto intro!: extend_right_ok extend_left_ok)
qed

lemma find_longest_match_bounds:
  assumes "find_longest_match a b alo ahi blo bhi = (i, j, k)" "k \<noteq> 0"
  shows "alo \<le> i \<and> i + k \<le> ahi \<and> blo \<le> j \<and> j + k \<le> bhi"
  using find_longest_match_ok [of a b alo blo bhi ahi] assms by (simp add: best_ok_def)

subsection \<open>\<open>get_matching_blocks\<close> and \<open>ratio\<close>\<close>

text \<open>
  \<^verbatim>\<open>
  queue = [(0, la, 0, lb)]
  matching_blocks = []
  while queue:
      alo, ahi, blo, bhi = queue.pop()
      i, j, k = x = self.find_longest_match(alo, ahi, blo, bhi)
      if k:
          matching_blocks.append(x)
          if alo < i and blo < j:
              queue.append((alo, i, blo, j))
          if i+k < ahi and j+k < bhi:
              queue.append((i+k, ahi, j+k, bhi))
  \<close>
  \<open>pop\<close> takes the region appended last, so the queue is a stack; the model keeps its
  top at the head of the list.  The loop ends because the block found lies inside the
  region: the regions pushed are together shorter than the region popped.
\<close>

function matching_loop ::
  "ustring \<Rightarrow> ustring \<Rightarrow> (nat \<times> nat \<times> nat \<times> nat) list \<Rightarrow> block list \<Rightarrow> block list" where
  "matching_loop a b [] matching_blocks = matching_blocks"
| "matching_loop a b ((alo, ahi, blo, bhi) # queue) matching_blocks =
     (case find_longest_match a b alo ahi blo bhi of
        (i, j, k) \<Rightarrow>
          if k \<noteq> 0
          then matching_loop a b
                 ((if i + k < ahi \<and> j + k < bhi then [(i + k, ahi, j + k, bhi)] else []) @
                  (if alo < i \<and> blo < j then [(alo, i, blo, j)] else []) @ queue)
                 (matching_blocks @ [(i, j, k)])
          else matching_loop a b queue matching_blocks)"
  by pat_completeness auto
termination
proof (relation "measure (\<lambda>(a, b, queue, blocks).
                   sum_list (map (\<lambda>(alo, ahi, blo, bhi). 2 * (ahi - alo) + 1) queue))",
       goal_cases)
  case 1
  then show ?case by simp
next
  case (2 a b alo ahi blo bhi queue matching_blocks x y j k)
  then have "find_longest_match a b alo ahi blo bhi = (x, j, k)" and k: "0 < k" by simp_all
  then have "alo \<le> x \<and> x + k \<le> ahi"
    using find_longest_match_bounds [of a b alo ahi blo bhi x j k] by simp
  with k show ?case by auto
next
  case 3
  then show ?case by simp
qed

declare matching_loop.simps [simp del]

text \<open>
  \<^verbatim>\<open>
  matching_blocks.sort()
  i1 = j1 = k1 = 0
  non_adjacent = []
  for i2, j2, k2 in matching_blocks:
      if i1 + k1 == i2 and j1 + k1 == j2:
          k1 += k2
      else:
          if k1: non_adjacent.append((i1, j1, k1))
          i1, j1, k1 = i2, j2, k2
  if k1: non_adjacent.append((i1, j1, k1))
  non_adjacent.append( (la, lb, 0) )
  \<close>
  Tuples are sorted lexicographically, the order of the product type.
\<close>

fun collapse :: "block list \<Rightarrow> block \<Rightarrow> block list \<Rightarrow> block list" where
  "collapse [] (i1, j1, k1) non_adjacent =
     (if k1 \<noteq> 0 then non_adjacent @ [(i1, j1, k1)] else non_adjacent)"
| "collapse ((i2, j2, k2) # rest) (i1, j1, k1) non_adjacent =
     (if i1 + k1 = i2 \<and> j1 + k1 = j2 then collapse rest (i1, j1, k1 + k2) non_adjacent
      else collapse rest (i2, j2, k2)
             (if k1 \<noteq> 0 then non_adjacent @ [(i1, j1, k1)] else non_adjacent))"

definition get_matching_blocks :: "ustring \<Rightarrow> ustring \<Rightarrow> block list" where
  "get_matching_blocks a b =
     (let la = length a; lb = length b;
          matching_blocks = sort (matching_loop a b [(0, la, 0, lb)] [])
      in collapse matching_blocks (0, 0, 0) [] @ [(la, lb, 0)])"

text \<open>
  \<^verbatim>\<open>
  matches = sum(triple[-1] for triple in self.get_matching_blocks())
  return _calculate_ratio(matches, len(self.a) + len(self.b))

  def _calculate_ratio(matches, length):
      if length: return 2.0 * matches / length
      return 1.0
  \<close>
  The source computes the quotient in binary floating point and compares it with the
  double nearest to 0.6.  The model computes and compares exactly.  The two agree for all
  strings of fewer than \<open>10\<^sup>1\<^sup>5\<close> characters in total: the double quotient
  is the correctly rounded value of \<open>2 * matches / length\<close>, rounding is monotone, the
  quotient \<open>6/10\<close> itself rounds to the double that the literal \<open>0.6\<close> denotes, and any
  other quotient differs from \<open>6/10\<close> by at least \<open>1 / (5 * length)\<close>, far more than
  the spacing of doubles near 0.6.
\<close>

definition ratio :: "ustring \<Rightarrow> ustring \<Rightarrow> rat" where
  "ratio a b =
     (let matches = sum_list (map (\<lambda>(i, j, k). k) (get_matching_blocks a b));
          length = length a + length b
      in if length \<noteq> 0 then 2 * of_nat matches / of_nat length else 1)"

text \<open>
  \<^verbatim>\<open>
  def fuzzy_match(text, pattern):
      return SequenceMatcher(None, text, pattern).ratio() > 0.6
  \<close>
\<close>

definition fuzzy_match :: "ustring \<Rightarrow> ustring \<Rightarrow> bool" where
  "fuzzy_match text pattern \<longleftrightarrow> 6 / 10 < ratio text pattern"

section \<open>Kill-list parser\<close>

text \<open>
  \<^verbatim>\<open>
  def parse_kill_list(ocr_text):
      kill_data = []
      lines = ocr_text.splitlines()
      for line in lines:
          cleaned = clean_ocr_line(line)
          if fuzzy_match(cleaned, "Customs") and fuzzy_match(cleaned, "SCAV"):
              print(f"[DEBUG] Matched Kill Line: {cleaned}")
              parts = cleaned.split()
              if len(parts) >= 5:
                  timestamp = parts[1]
                  name = parts[2]
                  faction = parts[4]
                  weapon = ' '.join(parts[5:])
                  kill_data.append(f"Time: {timestamp} | Name: {name} | "
                                   f"Faction: {faction} | Weapon: {weapon}")
      return kill_data
  \<close>
  The loop threads \<open>kill_data\<close>; an index out of range is a result \<open>Inl IndexError\<close>
  that ends the loop, as the exception would.  The debug line written to the console is
  not part of the value returned and is not modelled.
\<close>

definition format_record :: "ustring \<Rightarrow> ustring \<Rightarrow> ustring \<Rightarrow> ustring \<Rightarrow> ustring" where
  "format_record timestamp name faction weapon =
     ustr ''Time: '' @ timestamp @ ustr '' | Name: '' @ name @
     ustr '' | Faction: '' @ faction @ ustr '' | Weapon: '' @ weapon"

fun kill_loop :: "ustring list \<Rightarrow> ustring list \<Rightarrow> error + ustring list" where
  "kill_loop [] kill_data = Inr kill_data"
| "kill_loop (line # lines) kill_data =
     (let cleaned = clean_ocr_line line
      in if fuzzy_match cleaned (ustr ''Customs'') \<and> fuzzy_match cleaned (ustr ''SCAV'')
         then
           (let parts = str_split cleaned
            in if 5 \<le> length parts
               then
                 (case list_index parts 1 of
                    Inl e \<Rightarrow> Inl e
                  | Inr timestamp \<Rightarrow>
                      (case list_index parts 2 of
                         Inl e \<Rightarrow> Inl e
                       | Inr name \<Rightarrow>
                           (case list_index parts 4 of
                              Inl e \<Rightarrow> Inl e
                            | Inr faction \<Rightarrow>
                                (let weapon = str_join (ustr '' '') (drop 5 parts)
                                 in kill_loop lines
                                      (kill_data @
                                       [format_record timestamp name faction weapon])))))
               else kill_loop lines kill_data)
         else kill_loop lines kill_data)"

definition parse_kill_list :: "ustring \<Rightarrow> error + ustring list" where
  "parse_kill_list ocr_text = kill_loop (str_splitlines ocr_text) []"

section \<open>The timestamp parser, verified\<close>

lemma strip_keeps:
  "x \<in> set s \<Longrightarrow> P x \<or> x \<in> set (rev (dropWhile P (rev (dropWhile P s))))"
proof -
  assume x: "x \<in> set s"
  let ?y = "dropWhile P s"
  have "set s = set (takeWhile P s) \<union> set ?y"
    by (metis set_append takeWhile_dropWhile_id)
  moreover have "set ?y = set (takeWhile P (rev ?y)) \<union> set (dropWhile P (rev ?y))"
    by (metis set_append set_rev takeWhile_dropWhile_id)
  ultimately show ?thesis
    using x by (auto dest: set_takeWhileD)
qed

lemma todecimal_not_colon: "todecimal 58 = None"
  by (simp add: todecimal_def decimal_zeros_def)

lemma digits_value_no_colon: "digits_value acc s = Some n \<Longrightarrow> 58 \<notin> set s"
  by (induction acc s arbitrary: n rule: digits_value.induct)
     (auto simp: todecimal_not_colon split: option.splits if_splits)

lemma parse_digits_no_colon: "parse_digits s = Some n \<Longrightarrow> 58 \<notin> set s"
  by (cases s)
     (auto simp: parse_digits_def todecimal_not_colon
           dest: digits_value_no_colon split: option.splits if_splits)

lemma sign_body_keeps:
  "x \<in> set t \<Longrightarrow> x \<noteq> 43 \<Longrightarrow> x \<noteq> 45 \<Longrightarrow>
   x \<in> set (if t \<noteq> [] \<and> (hd t = 43 \<or> hd t = 45) then tl t else t)"
  by (cases t) auto

lemma py_int_no_colon:
  assumes "py_int s = Inr n"
  shows "58 \<notin> set s"
proof
  assume c: "58 \<in> set s"
  define t where "t = rev (dropWhile int_space (rev (dropWhile int_space s)))"
  define body where "body = (if t \<noteq> [] \<and> (hd t = 43 \<or> hd t = 45) then tl t else t)"
  have "\<not> int_space 58" by (simp add: int_space_def isspace_def)
  with c have "58 \<in> set t"
    unfolding t_def using strip_keeps [of 58 s int_space] by blast
  then have "58 \<in> set body"
    unfolding body_def by (rule sign_body_keeps) simp_all
  moreover obtain k where "parse_digits body = Some k"
    using assms unfolding body_def t_def
    by (auto simp: py_int_def Let_def split: option.splits)
  ultimately show False using parse_digits_no_colon by blast
qed

lemma str_split_sep_no_sep: "sep \<notin> set s \<Longrightarrow> str_split_sep sep s = [s]"
  by (induction s) auto

lemma str_split_sep_once:
  "sep \<notin> set a \<Longrightarrow> sep \<notin> set b \<Longrightarrow> str_split_sep sep (a @ sep # b) = [a, b]"
  by (induction a) (auto simp: str_split_sep_no_sep)

lemma parse_timestamp_pair:
  assumes "py_int m = Inr minutes" "py_int s = Inr seconds"
  shows "parse_timestamp (m @ ustr '':'' @ s) = Inr (minutes * 60 + seconds)"
proof -
  have "58 \<notin> set m" "58 \<notin> set s" using assms py_int_no_colon by blast+
  then have "str_split_sep 58 (m @ 58 # s) = [m, s]" by (rule str_split_sep_once)
  then show ?thesis using assms by (simp add: parse_timestamp_def ustr_def)
qed

lemma parse_timestamp_plain:
  assumes "py_int t = Inr n"
  shows "parse_timestamp t = Inr n"
  using assms py_int_no_colon [OF assms] by (simp add: parse_timestamp_def)

lemmas py_int_eval = ustr_def py_int_def parse_digits_def todecimal_def decimal_zeros_def
  int_space_def int_max_str_digits_def isspace_def

text \<open>
  C2.  \<open>parse_timestamp("2:05")\<close> is 125 and \<open>parse_timestamp("90")\<close> is 90.  For every
  input \<open>m:s\<close> whose two parts \<open>int\<close> accepts, the result is minutes times 60 plus
  seconds; for every input without a separator that \<open>int\<close> accepts, the result is that
  integer.  (A part that \<open>int\<close> accepts never contains a colon, so the first form covers
  every input with a separator and two numeric parts.)
\<close>

theorem parse_timestamp_minutes_seconds:
  "parse_timestamp (ustr ''2:05'') = Inr 125 \<and>
   parse_timestamp (ustr ''90'') = Inr 90 \<and>
   (\<forall>m s minutes seconds.
      py_int m = Inr minutes \<and> py_int s = Inr seconds \<longrightarrow>
      parse_timestamp (m @ ustr '':'' @ s) = Inr (minutes * 60 + seconds)) \<and>
   (\<forall>t n. py_int t = Inr n \<longrightarrow> parse_timestamp t = Inr n)"
proof (intro conjI allI impI)
  show "parse_timestamp (ustr ''2:05'') = Inr 125"
    by (simp add: parse_timestamp_def py_int_eval)
  show "parse_timestamp (ustr ''90'') = Inr 90"
    by (simp add: parse_timestamp_def py_int_eval)
next
  fix m s minutes seconds
  assume "py_int m = Inr minutes \<and> py_int s = Inr seconds"
  then show "parse_timestamp (m @ ustr '':'' @ s) = Inr (minutes * 60 + seconds)"
    by (simp add: parse_timestamp_pair)
next
  fix t n
  assume "py_int t = Inr n"
  then show "parse_timestamp t = Inr n" by (rule parse_timestamp_plain)
qed

theorem parse_timestamp_minutes_seconds_witness:
  "py_int (ustr ''12'') = Inr 12 \<and> py_int (ustr ''34'') = Inr 34 \<and>
   parse_timestamp (ustr ''12'' @ ustr '':'' @ ustr ''34'') = Inr (12 * 60 + 34) \<and>
   parse_timestamp (ustr ''34'') = Inr 34"
proof -
  have m: "py_int (ustr ''12'') = Inr 12" by (simp add: py_int_eval)
  have s: "py_int (ustr ''34'') = Inr 34" by (simp add: py_int_eval)
  from parse_timestamp_minutes_seconds
  have pair: "py_int (ustr ''12'') = Inr 12 \<and> py_int (ustr ''34'') = Inr 34 \<longrightarrow>
              parse_timestamp (ustr ''12'' @ ustr '':'' @ ustr ''34'') = Inr (12 * 60 + 34)"
    and plain: "py_int (ustr ''34'') = Inr 34 \<longrightarrow> parse_timestamp (ustr ''34'') = Inr 34"
    by blast+
  from m s pair plain show ?thesis by blast
qed

text \<open>
  C10.  The seconds of an \<open>m:s\<close> input are not checked against any range: also when the
  seconds are 60 or more, or a component is negative, the result is minutes times 60
  plus seconds.
\<close>

theorem parse_timestamp_no_range_check:
  assumes "py_int m = Inr minutes" and "py_int s = Inr seconds"
    and "60 \<le> seconds \<or> seconds < 0 \<or> minutes < 0"
  shows "parse_timestamp (m @ ustr '':'' @ s) = Inr (minutes * 60 + seconds)"
  using assms(1,2) by (rule parse_timestamp_pair)

theorem parse_timestamp_no_range_check_witness:
  "py_int (ustr ''1'') = Inr 1 \<and> py_int (ustr ''90'') = Inr 90 \<and>
   py_int (ustr ''-1'') = Inr (- 1) \<and> py_int (ustr ''-30'') = Inr (- 30) \<and>
   parse_timestamp (ustr ''1:90'') = Inr 150 \<and>
   parse_timestamp (ustr ''-1:-30'') = Inr (- 90)"
proof -
  have a: "py_int (ustr ''1'') = Inr 1" and b: "py_int (ustr ''90'') = Inr 90"
    and c: "py_int (ustr ''-1'') = Inr (- 1)" and d: "py_int (ustr ''-30'') = Inr (- 30)"
    by (simp_all add: py_int_eval)
  have "parse_timestamp (ustr ''1'' @ ustr '':'' @ ustr ''90'') = Inr (1 * 60 + 90)"
    by (rule parse_timestamp_no_range_check [OF a b]) simp
  moreover
  have "parse_timestamp (ustr ''-1'' @ ustr '':'' @ ustr ''-30'') = Inr (- 1 * 60 + - 30)"
    by (rule parse_timestamp_no_range_check [OF c d]) simp
  ultimately show ?thesis using a b c d by (simp add: ustr_def)
qed

section \<open>The line cleaner, verified\<close>

lemma replace_nonempty_length:
  "length new \<le> length old \<Longrightarrow> length (replace_nonempty s old new) \<le> length s"
proof (induction s old new rule: replace_nonempty.induct)
  case (1 old new)
  then show ?case by simp
next
  case (2 c cs old new)
  show ?case
  proof (cases "old \<noteq> [] \<and> take (length old) (c # cs) = old")
    case True
    then have "length (take (length old) (c # cs)) = length old" by simp
    then have "length old \<le> length (c # cs)" by simp
    with True 2 show ?thesis by simp
  next
    case False
    with 2 show ?thesis by auto
  qed
qed

lemma replace_nonempty_set:
  "set (replace_nonempty s old new) \<subseteq> set s \<union> set new"
proof (induction s old new rule: replace_nonempty.induct)
  case (1 old new)
  then show ?case by simp
next
  case (2 c cs old new)
  show ?case
  proof (cases "old \<noteq> [] \<and> take (length old) (c # cs) = old")
    case True
    have "set (drop (length old) (c # cs)) \<subseteq> set (c # cs)" by (rule set_drop_subset)
    with True 2 show ?thesis by auto
  next
    case False
    with 2 show ?thesis by auto
  qed
qed

lemma replace_nonempty_absent:
  "x \<in> set old \<Longrightarrow> x \<notin> set s \<Longrightarrow> replace_nonempty s old new = s"
proof (induction s)
  case Nil
  then show ?case by simp
next
  case (Cons c cs)
  have "take (length old) (c # cs) \<noteq> old"
  proof
    assume "take (length old) (c # cs) = old"
    then have "set old \<subseteq> set (c # cs)" by (metis set_take_subset)
    with Cons.prems show False by auto
  qed
  with Cons show ?case by simp
qed

lemma replace_nonempty_char:
  "replace_nonempty s [c] [d] = map (\<lambda>x. if x = c then d else x) s"
  by (induction s) auto

lemma str_strip_length: "length (str_strip s) \<le> length s"
proof -
  have "length (dropWhile isspace (rev (dropWhile isspace s))) \<le> length (rev (dropWhile isspace s))"
    by (rule length_dropWhile_le)
  also have "\<dots> \<le> length s" by (simp add: length_dropWhile_le)
  finally show ?thesis by (simp add: str_strip_def)
qed

lemma str_strip_set: "set (str_strip s) \<subseteq> set s"
  by (auto simp: str_strip_def dest!: set_dropWhileD)

lemma str_strip_idem: "str_strip (str_strip s) = str_strip s"
proof -
  define y where "y = dropWhile isspace s"
  define z where "z = dropWhile isspace (rev y)"
  have z: "dropWhile isspace z = z" by (simp add: z_def)
  have "dropWhile isspace (rev z) = rev z"
  proof (cases "z = []")
    case True
    then show ?thesis by simp
  next
    case False
    then have "rev y \<noteq> []" by (auto simp: z_def)
    then have ynil: "y \<noteq> []" by simp
    have "hd (rev z) = last z" using False by (simp add: hd_rev)
    also have "\<dots> = last (rev y)"
      using False unfolding z_def
      by (metis append_is_Nil_conv last_appendR takeWhile_dropWhile_id)
    also have "\<dots> = hd y" using ynil by (simp add: last_rev)
    finally have "hd (rev z) = hd y" .
    moreover have "\<not> isspace (hd y)"
      using ynil unfolding y_def by (rule hd_dropWhile)
    ultimately show ?thesis
      using False by (cases "rev z") auto
  qed
  then show ?thesis by (simp add: str_strip_def y_def [symmetric] z_def [symmetric] z)
qed

lemma clean_set: "set (clean_ocr_line s) \<subseteq> {c. in_class c}"
  using str_strip_set by (fastforce simp: clean_ocr_line_def Let_def re_sub_outside_class_def)

lemma clean_no_OQ: "79 \<notin> set (clean_ocr_line s) \<and> 81 \<notin> set (clean_ocr_line s)"
proof -
  define l1 where "l1 = str_replace s (ustr ''O'') (ustr ''0'')"
  define l2 where "l2 = str_replace l1 (ustr ''Q'') (ustr ''0'')"
  define l3 where "l3 = str_replace l2 [226, 8364, 8221] (ustr ''-'')"
  define l4 where "l4 = str_replace l3 (ustr ''='') (ustr ''-'')"
  have 1: "79 \<notin> set l1"
    by (auto simp: l1_def str_replace_def ustr_def replace_nonempty_char)
  have 2: "79 \<notin> set l2 \<and> 81 \<notin> set l2"
    using 1 by (auto simp: l2_def str_replace_def ustr_def replace_nonempty_char)
  have "set l3 \<subseteq> set l2 \<union> {45}"
    using replace_nonempty_set [of l2 "[226, 8364, 8221]" "[45]"]
    by (simp add: l3_def str_replace_def ustr_def)
  with 2 have 3: "79 \<notin> set l3 \<and> 81 \<notin> set l3" by auto
  have "set l4 \<subseteq> set l3 \<union> {45}"
    using replace_nonempty_set [of l3 "[61]" "[45]"]
    by (simp add: l4_def str_replace_def ustr_def)
  with 3 have 4: "79 \<notin> set l4 \<and> 81 \<notin> set l4" by auto
  have "set (clean_ocr_line s) \<subseteq> set l4"
    using str_strip_set [of "re_sub_outside_class l4"]
    by (auto simp: clean_ocr_line_def Let_def re_sub_outside_class_def l1_def l2_def l3_def l4_def)
  with 4 show ?thesis by auto
qed

lemma clean_fixed:
  assumes cls: "set r \<subseteq> {c. in_class c}" and o: "79 \<notin> set r" and q: "81 \<notin> set r"
    and st: "str_strip r = r"
  shows "clean_ocr_line r = r"
proof -
  have a: "226 \<notin> set r" "61 \<notin> set r" using cls by (auto simp: in_class_def)
  have 1: "str_replace r (ustr ''O'') (ustr ''0'') = r"
    using o by (simp add: str_replace_def ustr_def replace_nonempty_absent [of 79])
  have 2: "str_replace r (ustr ''Q'') (ustr ''0'') = r"
    using q by (simp add: str_replace_def ustr_def replace_nonempty_absent [of 81])
  have 3: "str_replace r [226, 8364, 8221] (ustr ''-'') = r"
    using a by (simp add: str_replace_def replace_nonempty_absent [of 226])
  have 4: "str_replace r (ustr ''='') (ustr ''-'') = r"
    using a by (simp add: str_replace_def ustr_def replace_nonempty_absent [of 61])
  have 5: "re_sub_outside_class r = r"
    using cls by (auto simp: re_sub_outside_class_def filter_id_conv)
  show ?thesis by (simp add: clean_ocr_line_def Let_def 1 2 3 4 5 st)
qed

lemma clean_length: "length (clean_ocr_line line) \<le> length line"
proof -
  define l1 where "l1 = str_replace line (ustr ''O'') (ustr ''0'')"
  define l2 where "l2 = str_replace l1 (ustr ''Q'') (ustr ''0'')"
  define l3 where "l3 = str_replace l2 [226, 8364, 8221] (ustr ''-'')"
  define l4 where "l4 = str_replace l3 (ustr ''='') (ustr ''-'')"
  have "length l1 \<le> length line"
    by (simp add: l1_def str_replace_def ustr_def replace_nonempty_length)
  moreover have "length l2 \<le> length l1"
    by (simp add: l2_def str_replace_def ustr_def replace_nonempty_length)
  moreover have "length l3 \<le> length l2"
    by (simp add: l3_def str_replace_def ustr_def replace_nonempty_length)
  moreover have "length l4 \<le> length l3"
    by (simp add: l4_def str_replace_def ustr_def replace_nonempty_length)
  moreover have "length (re_sub_outside_class l4) \<le> length l4"
    by (simp add: re_sub_outside_class_def)
  moreover have "length (str_strip (re_sub_outside_class l4)) \<le> length (re_sub_outside_class l4)"
    by (rule str_strip_length)
  ultimately have "length (str_strip (re_sub_outside_class l4)) \<le> length line"
    by linarith
  moreover have "clean_ocr_line line = str_strip (re_sub_outside_class l4)"
    by (simp add: clean_ocr_line_def Let_def l1_def l2_def l3_def l4_def)
  ultimately show ?thesis by simp
qed

lemma in_class_alphabet:
  "in_class c \<Longrightarrow>
   c \<in> set (ustr ''abcdefghijklmnopqrstuvwxyzABCDEFGHIJKLMNOPQRSTUVWXYZ0123456789 :.,-'')"
  unfolding in_class_def ustr_def by (simp) arith

text \<open>
  C5.  \<open>clean_ocr_line("O1:Q5=Customs")\<close> is \<open>"01:05-Customs"\<close>.
\<close>

theorem clean_ocr_line_example:
  "clean_ocr_line (ustr ''O1:Q5=Customs'') = ustr ''01:05-Customs''"
  by (simp add: clean_ocr_line_def ustr_def str_replace_def re_sub_outside_class_def
        in_class_def str_strip_def isspace_def)

text \<open>
  C6.  \<open>clean_ocr_line\<close> is idempotent: cleaning a cleaned line changes nothing.
\<close>

theorem clean_ocr_line_idempotent:
  "clean_ocr_line (clean_ocr_line s) = clean_ocr_line s"
proof (rule clean_fixed)
  show "set (clean_ocr_line s) \<subseteq> {c. in_class c}" by (rule clean_set)
  show "79 \<notin> set (clean_ocr_line s)" "81 \<notin> set (clean_ocr_line s)"
    using clean_no_OQ by blast+
  show "str_strip (clean_ocr_line s) = clean_ocr_line s"
    by (simp add: clean_ocr_line_def Let_def str_strip_idem)
qed

text \<open>
  C7.  The cleaned line is no longer than the input line, and each of its characters is
  an ASCII letter, a digit, a space or one of \<open>: . , -\<close>.
\<close>

theorem clean_ocr_line_length_and_alphabet:
  "length (clean_ocr_line line) \<le> length line \<and>
   set (clean_ocr_line line) \<subseteq>
     set (ustr ''abcdefghijklmnopqrstuvwxyzABCDEFGHIJKLMNOPQRSTUVWXYZ0123456789 :.,-'')"
proof
  show "length (clean_ocr_line line) \<le> length line" by (rule clean_length)
  show "set (clean_ocr_line line) \<subseteq>
     set (ustr ''abcdefghijklmnopqrstuvwxyzABCDEFGHIJKLMNOPQRSTUVWXYZ0123456789 :.,-'')"
    using clean_set [of line] in_class_alphabet by blast
qed

section \<open>The matcher, verified\<close>

text \<open>
  The characters counted by \<open>ratio\<close> are matched one to one: the blocks found lie in
  disjoint parts of both strings.  So the number of matches is at most the size of the
  intersection of the two strings as multisets.  \<open>slice xs lo hi\<close> is \<open>xs[lo:hi]\<close>,
  \<open>matched_size\<close> the sum of the block sizes, \<open>common_size\<close> the size of the multiset
  intersection of a region's two slices.
\<close>

definition slice :: "'a list \<Rightarrow> nat \<Rightarrow> nat \<Rightarrow> 'a list" where
  "slice xs lo hi = take (hi - lo) (drop lo xs)"

definition matched_size :: "block list \<Rightarrow> nat" where
  "matched_size blocks = sum_list (map (\<lambda>(i, j, k). k) blocks)"

definition common_size :: "ustring \<Rightarrow> ustring \<Rightarrow> nat \<times> nat \<times> nat \<times> nat \<Rightarrow> nat" where
  "common_size a b r = (case r of (alo, ahi, blo, bhi) \<Rightarrow>
     size (mset (slice a alo ahi) \<inter># mset (slice b blo bhi)))"

definition region_ok :: "ustring \<Rightarrow> ustring \<Rightarrow> nat \<times> nat \<times> nat \<times> nat \<Rightarrow> bool" where
  "region_ok a b r = (case r of (alo, ahi, blo, bhi) \<Rightarrow>
     alo \<le> ahi \<and> ahi \<le> length a \<and> blo \<le> bhi \<and> bhi \<le> length b)"

lemma slice_split: "lo \<le> mid \<Longrightarrow> mid \<le> hi \<Longrightarrow> slice xs lo hi = slice xs lo mid @ slice xs mid hi"
proof -
  assume a: "lo \<le> mid" "mid \<le> hi"
  then have "hi - lo = (mid - lo) + (hi - mid)" by simp
  then have "take (hi - lo) (drop lo xs) =
             take (mid - lo) (drop lo xs) @ take (hi - mid) (drop (mid - lo) (drop lo xs))"
    by (simp only: take_add)
  then show ?thesis using a by (simp add: slice_def)
qed

lemma slice_eq:
  assumes "i + k \<le> length a" "j + k \<le> length b" "\<forall>t<k. a ! (i + t) = b ! (j + t)"
  shows "slice a i (i + k) = slice b j (j + k)"
  using assms by (intro nth_equalityI) (auto simp: slice_def)

lemma inter_add_size:
  "size (A \<inter># B) + size (C \<inter># D) \<le> size ((A + C) \<inter># (B + D))"
proof -
  have "(A \<inter># B) + (C \<inter># D) \<subseteq># (A + C) \<inter># (B + D)"
    by (intro mset_subset_eqI) (auto simp: min_def)
  then have "size ((A \<inter># B) + (C \<inter># D)) \<le> size ((A + C) \<inter># (B + D))"
    by (rule size_mset_mono)
  then show ?thesis by simp
qed

lemma common_split:
  assumes r: "alo \<le> i" "i + k \<le> ahi" "ahi \<le> length a" "blo \<le> j" "j + k \<le> bhi" "bhi \<le> length b"
    and eq: "\<forall>t<k. a ! (i + t) = b ! (j + t)"
  shows "common_size a b (alo, i, blo, j) + k + common_size a b (i + k, ahi, j + k, bhi)
         \<le> common_size a b (alo, ahi, blo, bhi)"
proof -
  let ?A1 = "mset (slice a alo i)" and ?A2 = "mset (slice a i (i + k))"
    and ?A3 = "mset (slice a (i + k) ahi)"
  let ?B1 = "mset (slice b blo j)" and ?B2 = "mset (slice b j (j + k))"
    and ?B3 = "mset (slice b (j + k) bhi)"
  have sa: "slice a alo ahi = slice a alo i @ slice a i (i + k) @ slice a (i + k) ahi"
    using r slice_split [of alo i ahi a] slice_split [of i "i + k" ahi a] by simp
  have sb: "slice b blo bhi = slice b blo j @ slice b j (j + k) @ slice b (j + k) bhi"
    using r slice_split [of blo j bhi b] slice_split [of j "j + k" bhi b] by simp
  have e: "slice a i (i + k) = slice b j (j + k)"
    using r eq by (intro slice_eq) auto
  have len: "length (slice a i (i + k)) = k" using r by (simp add: slice_def)
  have "size (?A1 \<inter># ?B1) + (size (?A2 \<inter># ?B2) + size (?A3 \<inter># ?B3))
        \<le> size (?A1 \<inter># ?B1) + size ((?A2 + ?A3) \<inter># (?B2 + ?B3))"
    using inter_add_size [of ?A2 ?B2 ?A3 ?B3] by simp
  also have "\<dots> \<le> size ((?A1 + (?A2 + ?A3)) \<inter># (?B1 + (?B2 + ?B3)))"
    by (rule inter_add_size)
  finally have "size (?A1 \<inter># ?B1) + (size (?A2 \<inter># ?B2) + size (?A3 \<inter># ?B3))
        \<le> size (mset (slice a alo ahi) \<inter># mset (slice b blo bhi))"
    by (simp add: sa sb)
  moreover have "size (?A2 \<inter># ?B2) = k" using e len by simp
  ultimately show ?thesis by (simp add: common_size_def)
qed

lemma matched_size_append: "matched_size (xs @ ys) = matched_size xs + matched_size ys"
  by (simp add: matched_size_def)

lemma matching_loop_total:
  "\<forall>r\<in>set queue. region_ok a b r \<Longrightarrow>
   matched_size (matching_loop a b queue blocks) \<le> matched_size blocks + sum_list (map (common_size a b) queue)"
proof (induction a b queue blocks rule: matching_loop.induct)
  case (1 a b matching_blocks)
  then show ?case by (simp add: matching_loop.simps)
next
  case (2 a b alo ahi blo bhi queue matching_blocks)
  obtain i j k where f: "find_longest_match a b alo ahi blo bhi = (i, j, k)"
    by (cases "find_longest_match a b alo ahi blo bhi") auto
  have rk: "alo \<le> ahi" "ahi \<le> length a" "blo \<le> bhi" "bhi \<le> length b"
    using 2(3) by (auto simp: region_ok_def)
  have rest: "\<forall>r\<in>set queue. region_ok a b r" using 2(3) by simp
  show ?case
  proof (cases "k = 0")
    case True
    then have "matching_loop a b ((alo, ahi, blo, bhi) # queue) matching_blocks =
               matching_loop a b queue matching_blocks"
      using f by (simp add: matching_loop.simps)
    moreover have "matched_size (matching_loop a b queue matching_blocks)
                   \<le> matched_size matching_blocks + sum_list (map (common_size a b) queue)"
      using 2(2) f True rest by simp
    ultimately show ?thesis by simp
  next
    case False
    define new where "new = (if i + k < ahi \<and> j + k < bhi then [(i + k, ahi, j + k, bhi)] else []) @
                  (if alo < i \<and> blo < j then [(alo, i, blo, j)] else []) @ queue"
    have ok: "best_ok a b alo blo bhi ahi (i, j, k)"
      using find_longest_match_ok [of a b alo blo bhi ahi] f by simp
    then have b: "alo \<le> i" "i + k \<le> ahi" "blo \<le> j" "j + k \<le> bhi"
      and eq: "\<forall>t<k. a ! (i + t) = b ! (j + t)"
      using False by (auto simp: best_ok_def)
    have newok: "\<forall>r\<in>set new. region_ok a b r"
      using rest b rk by (auto simp: new_def region_ok_def)
    have step: "matching_loop a b ((alo, ahi, blo, bhi) # queue) matching_blocks =
                matching_loop a b new (matching_blocks @ [(i, j, k)])"
      using f False by (simp add: matching_loop.simps new_def)
    have "matched_size (matching_loop a b new (matching_blocks @ [(i, j, k)]))
          \<le> matched_size (matching_blocks @ [(i, j, k)]) + sum_list (map (common_size a b) new)"
      using 2(1) [OF f [symmetric] refl False] newok unfolding new_def by simp
    also have "\<dots> = matched_size matching_blocks + k + sum_list (map (common_size a b) new)"
      by (simp add: matched_size_def)
    also have "sum_list (map (common_size a b) new)
               \<le> common_size a b (i + k, ahi, j + k, bhi) + common_size a b (alo, i, blo, j)
                  + sum_list (map (common_size a b) queue)"
      by (simp add: new_def)
    also have "matched_size matching_blocks + k +
               (common_size a b (i + k, ahi, j + k, bhi) + common_size a b (alo, i, blo, j)
                  + sum_list (map (common_size a b) queue))
               \<le> matched_size matching_blocks + common_size a b (alo, ahi, blo, bhi)
                  + sum_list (map (common_size a b) queue)"
      using common_split [OF b(1,2) rk(2) b(3,4) rk(4) eq] by simp
    finally show ?thesis using step by simp
  qed
qed


lemma matched_size_sort: "matched_size (sort blocks) = matched_size blocks"
proof -
  have "sum_list (map (\<lambda>(i, j, k). k) (sort blocks))
        = sum_mset (image_mset (\<lambda>(i, j, k). k) (mset (sort blocks)))"
    by (metis mset_map sum_mset_sum_list)
  also have "\<dots> = sum_mset (image_mset (\<lambda>(i, j, k). k) (mset blocks))" by simp
  also have "\<dots> = sum_list (map (\<lambda>(i, j, k). k) blocks)"
    by (metis mset_map sum_mset_sum_list)
  finally show ?thesis by (simp add: matched_size_def)
qed

lemma matched_size_collapse:
  "matched_size (collapse blocks (i1, j1, k1) non_adjacent) = matched_size non_adjacent + k1 + matched_size blocks"
  by (induction blocks "(i1, j1, k1)" non_adjacent arbitrary: i1 j1 k1 rule: collapse.induct)
     (auto simp: matched_size_def)

lemma matches_le_common:
  "matched_size (get_matching_blocks a b) \<le> size (mset a \<inter># mset b)"
proof -
  have "matched_size (get_matching_blocks a b) = matched_size (matching_loop a b [(0, length a, 0, length b)] [])"
    by (simp add: get_matching_blocks_def Let_def matched_size_append matched_size_collapse matched_size_sort)
       (simp add: matched_size_def)
  also have "\<dots> \<le> matched_size [] + sum_list (map (common_size a b) [(0, length a, 0, length b)])"
    by (rule matching_loop_total) (simp add: region_ok_def)
  also have "\<dots> = size (mset a \<inter># mset b)"
    by (simp add: matched_size_def common_size_def slice_def)
  finally show ?thesis .
qed

lemma fuzzy_match_matches:
  assumes "fuzzy_match text pattern" "pattern \<noteq> []"
  shows "3 * (length text + length pattern) < 10 * matched_size (get_matching_blocks text pattern)"
proof -
  define M where "M = matched_size (get_matching_blocks text pattern)"
  define L where "L = length text + length pattern"
  have L: "0 < L" using assms(2) by (simp add: L_def)
  have "(6 :: rat) / 10 < 2 * of_nat M / of_nat L"
    using assms(1) L unfolding fuzzy_match_def ratio_def Let_def M_def L_def matched_size_def
    by simp
  then have "6 * (of_nat L :: rat) < 20 * of_nat M"
    using L by (simp add: field_simps)
  then have "(of_nat (6 * L) :: rat) < of_nat (20 * M)" by simp
  then have "6 * L < 20 * M" by (simp only: of_nat_less_iff)
  then show ?thesis unfolding M_def L_def by simp
qed

lemma inter_le_filter: "size (mset a \<inter># mset b) \<le> length (filter (\<lambda>x. x \<in> set b) a)"
proof -
  have "count (mset a \<inter># mset b) x \<le> count (filter_mset (\<lambda>x. x \<in> set b) (mset a)) x"
    for x
  proof (cases "x \<in> set b")
    case True
    then show ?thesis by simp
  next
    case False
    then have "count_list b x = 0" by (simp add: count_list_0_iff)
    then show ?thesis by (simp add: count_mset)
  qed
  then have "mset a \<inter># mset b \<subseteq># filter_mset (\<lambda>x. x \<in> set b) (mset a)"
    by (rule mset_subset_eqI)
  then have "size (mset a \<inter># mset b) \<le> size (filter_mset (\<lambda>x. x \<in> set b) (mset a))"
    by (rule size_mset_mono)
  then show ?thesis by (simp flip: mset_filter)
qed

lemma inter_full:
  assumes "length b \<le> size (mset a \<inter># mset b)"
  shows "set b \<subseteq> set a"
proof -
  have sub: "mset a \<inter># mset b \<subseteq># mset b" by simp
  have "mset a \<inter># mset b = mset b"
  proof (rule ccontr)
    assume "mset a \<inter># mset b \<noteq> mset b"
    with sub have "mset a \<inter># mset b \<subset># mset b" by (simp add: subset_mset.less_le)
    then have "size (mset a \<inter># mset b) < size (mset b)" by (rule mset_subset_size)
    with assms show False by simp
  qed
  then have "mset b \<subseteq># mset a" by (metis subset_mset.inf_le1)
  then show ?thesis by (metis set_mset_mono set_mset_mset)
qed

lemma split_le_nonspace:
  "length (str_split_from cur s)
   \<le> (if cur = [] then 0 else 1) + length (filter (\<lambda>c. \<not> isspace c) s)"
proof (induction s arbitrary: cur)
  case Nil
  then show ?case by simp
next
  case (Cons c cs)
  show ?case
  proof (cases "isspace c")
    case True
    then show ?thesis using Cons [of "[]"] by simp
  next
    case False
    then show ?thesis using Cons [of "cur @ [c]"] by simp
  qed
qed

lemma split_le_space:
  "length (str_split_from cur s) \<le> length (filter isspace s) + 1"
proof (induction s arbitrary: cur)
  case Nil
  then show ?case by simp
next
  case (Cons c cs)
  show ?case
  proof (cases "isspace c")
    case True
    then show ?thesis using Cons [of "[]"] by simp
  next
    case False
    then show ?thesis using Cons [of "cur @ [c]"] by simp
  qed
qed

lemma five_classes:
  assumes "\<forall>x. of_bool (P1 x) + of_bool (P2 x) + of_bool (P3 x) + of_bool (P4 x) + of_bool (P5 x) \<le> (1::nat)"
  shows "length (filter P1 xs) + length (filter P2 xs) + length (filter P3 xs) +
         length (filter P4 xs) + length (filter P5 xs) \<le> length xs"
proof (induction xs)
  case Nil
  then show ?case by simp
next
  case (Cons x xs)
  have x: "of_bool (P1 x) + of_bool (P2 x) + of_bool (P3 x) + of_bool (P4 x) + of_bool (P5 x) \<le> (1::nat)"
    using assms by blast
  have f: "length (filter P (x # xs)) = of_bool (P x) + length (filter P xs)" for P :: "'a \<Rightarrow> bool"
    by simp
  show ?case unfolding f using x Cons by simp
qed

lemma in_set_filter_pos: "c \<in> set xs \<Longrightarrow> 1 \<le> length (filter (\<lambda>x. x = c) xs)"
  by (induction xs) auto

lemma no_kill_line:
  assumes cu: "fuzzy_match c (ustr ''Customs'')" and sc: "fuzzy_match c (ustr ''SCAV'')"
    and parts: "5 \<le> length (str_split c)"
  shows False
proof -
  define M1 where "M1 = matched_size (get_matching_blocks c (ustr ''Customs''))"
  define M2 where "M2 = matched_size (get_matching_blocks c (ustr ''SCAV''))"
  define n where "n = length c"
  have m1: "3 * (n + 7) < 10 * M1"
    using fuzzy_match_matches [OF cu] by (simp add: M1_def n_def ustr_def)
  have m2: "3 * (n + 4) < 10 * M2"
    using fuzzy_match_matches [OF sc] by (simp add: M2_def n_def ustr_def)
  have i2: "M2 \<le> size (mset c \<inter># mset (ustr ''SCAV''))"
    unfolding M2_def by (rule matches_le_common)
  have "size (mset c \<inter># mset (ustr ''SCAV'')) \<le> size (mset (ustr ''SCAV''))"
    by (rule size_mset_mono) simp
  then have c2: "size (mset c \<inter># mset (ustr ''SCAV'')) \<le> 4" by (simp add: ustr_def)
  have ws: "4 \<le> length (filter isspace c)"
    using parts split_le_space [of "[]" c] by (simp add: str_split_def)
  have nws: "5 \<le> length (filter (\<lambda>x. \<not> isspace x) c)"
    using parts split_le_nonspace [of "[]" c] by (simp add: str_split_def)
  have "length (filter isspace c) + length (filter (\<lambda>x. \<not> isspace x) c) = n"
    unfolding n_def by (rule sum_length_filter_compl)
  with ws nws have "9 \<le> n" by simp
  moreover from m2 i2 c2 have "n \<le> 9" by simp
  ultimately have n: "n = 9" by simp
  from m2 n have "4 \<le> M2" by simp
  with i2 have "length (ustr ''SCAV'') \<le> size (mset c \<inter># mset (ustr ''SCAV''))"
    by (simp add: ustr_def)
  then have "set (ustr ''SCAV'') \<subseteq> set c" by (rule inter_full)
  then have s: "83 \<in> set c" and a: "65 \<in> set c" and v: "86 \<in> set c"
    by (simp_all add: ustr_def)
  from m1 n have "5 \<le> M1" by simp
  moreover have "M1 \<le> size (mset c \<inter># mset (ustr ''Customs''))"
    unfolding M1_def by (rule matches_le_common)
  ultimately have cus: "5 \<le> length (filter (\<lambda>x. x \<in> set (ustr ''Customs'')) c)"
    using inter_le_filter [of c "ustr ''Customs''"] by simp
  have "length (filter isspace c) + length (filter (\<lambda>x. x = 83) c) +
        length (filter (\<lambda>x. x = 65) c) + length (filter (\<lambda>x. x = 86) c) +
        length (filter (\<lambda>x. x \<in> set (ustr ''Customs'')) c) \<le> length c"
  proof (rule five_classes, rule allI)
    fix x :: nat
    have sp: "\<not> isspace 83" "\<not> isspace 65" "\<not> isspace 86"
      by (simp_all add: isspace_def)
    have cu: "x \<noteq> 83 \<and> x \<noteq> 65 \<and> x \<noteq> 86 \<and> \<not> isspace x"
      if "x \<in> set (ustr ''Customs'')"
      using that by (auto simp: ustr_def isspace_def)
    show "of_bool (isspace x) + of_bool (x = 83) + of_bool (x = 65) + of_bool (x = 86) +
          of_bool (x \<in> set (ustr ''Customs'')) \<le> (1::nat)"
    proof (cases "x \<in> set (ustr ''Customs'')")
      case True
      with cu show ?thesis by simp
    next
      case False
      then show ?thesis using sp by (cases "isspace x") auto
    qed
  qed
  with ws cus in_set_filter_pos [OF s] in_set_filter_pos [OF a] in_set_filter_pos [OF v] n
  show False by (simp add: n_def)
qed

section \<open>The kill-list parser, verified\<close>

text \<open>
  \<open>records_of_line line\<close>: what the loop of \<open>parse_kill_list\<close> appends for one line,
  read off the loop run on that line alone.
\<close>

definition records_of_line :: "ustring \<Rightarrow> ustring list" where
  "records_of_line line =
     (case kill_loop [line] [] of Inl e \<Rightarrow> [] | Inr kill_data \<Rightarrow> kill_data)"

lemma kill_loop_skip:
  assumes "\<not> (fuzzy_match (clean_ocr_line line) (ustr ''Customs'') \<and>
              fuzzy_match (clean_ocr_line line) (ustr ''SCAV'') \<and>
              5 \<le> length (str_split (clean_ocr_line line)))"
  shows "kill_loop (line # lines) kill_data = kill_loop lines kill_data"
  using assms by (auto simp: Let_def)

lemma kill_loop_emit:
  assumes "fuzzy_match (clean_ocr_line line) (ustr ''Customs'')"
    and "fuzzy_match (clean_ocr_line line) (ustr ''SCAV'')"
    and "5 \<le> length (str_split (clean_ocr_line line))"
    and "parts = str_split (clean_ocr_line line)"
  shows "kill_loop (line # lines) kill_data =
         kill_loop lines
           (kill_data @ [format_record (parts ! 1) (parts ! 2) (parts ! 4)
                           (str_join (ustr '' '') (drop 5 parts))])"
  using assms by (simp add: Let_def list_index_def)

lemma kill_loop_step:
  "kill_loop (line # lines) kill_data = kill_loop lines (kill_data @ records_of_line line)
   \<and> length (records_of_line line) \<le> 1"
proof (cases "fuzzy_match (clean_ocr_line line) (ustr ''Customs'') \<and>
              fuzzy_match (clean_ocr_line line) (ustr ''SCAV'') \<and>
              5 \<le> length (str_split (clean_ocr_line line))")
  case True
  define parts where "parts = str_split (clean_ocr_line line)"
  define r where "r = format_record (parts ! 1) (parts ! 2) (parts ! 4)
                        (str_join (ustr '' '') (drop 5 parts))"
  from True have m: "fuzzy_match (clean_ocr_line line) (ustr ''Customs'')"
    "fuzzy_match (clean_ocr_line line) (ustr ''SCAV'')"
    "5 \<le> length (str_split (clean_ocr_line line))" by simp_all
  have "kill_loop [line] [] = kill_loop [] ([] @ [r])"
    unfolding r_def by (rule kill_loop_emit [OF m parts_def])
  then have one: "records_of_line line = [r]" by (simp add: records_of_line_def)
  have "kill_loop (line # lines) kill_data = kill_loop lines (kill_data @ [r])"
    unfolding r_def by (rule kill_loop_emit [OF m parts_def])
  with one show ?thesis by simp
next
  case False
  have "kill_loop [line] [] = kill_loop [] []" using False by (rule kill_loop_skip)
  then have none: "records_of_line line = []" by (simp add: records_of_line_def)
  have "kill_loop (line # lines) kill_data = kill_loop lines kill_data"
    using False by (rule kill_loop_skip)
  with none show ?thesis by simp
qed

lemma kill_loop_concat:
  "kill_loop lines kill_data = Inr (kill_data @ concat (map records_of_line lines))"
proof (induction lines arbitrary: kill_data)
  case Nil
  then show ?case by simp
next
  case (Cons line lines)
  have "kill_loop (line # lines) kill_data = kill_loop lines (kill_data @ records_of_line line)"
    using kill_loop_step by blast
  then show ?case by (simp add: Cons)
qed

lemmas match_eval = fuzzy_match_def ratio_def get_matching_blocks_def matching_loop.simps
  find_longest_match_def extend_left.simps extend_right.simps b2j_def ustr_def Let_def

lemmas clean_eval = clean_ocr_line_def ustr_def str_replace_def re_sub_outside_class_def
  in_class_def str_strip_def isspace_def Let_def

lemma scenario_line_clean:
  "clean_ocr_line (ustr ''12:34 Customs PMC SCAV AK-74'') = ustr ''12:34 Customs PMC SCAV AK-74''"
  by (simp add: clean_eval)

lemma scenario_line_ratio_map:
  "ratio (ustr ''12:34 Customs PMC SCAV AK-74'') (ustr ''Customs'') = 4 / 10"
  by (simp add: match_eval)

lemma scenario_line_ratio_faction:
  "ratio (ustr ''12:34 Customs PMC SCAV AK-74'') (ustr ''SCAV'') = 1 / 4"
  by (simp add: match_eval)

lemma short_line_clean: "clean_ocr_line (ustr ''SCAVusto'') = ustr ''SCAVusto''"
  by (simp add: clean_eval)

lemma short_line_map: "fuzzy_match (ustr ''SCAVusto'') (ustr ''Customs'')"
  by (simp add: match_eval)

lemma short_line_faction: "fuzzy_match (ustr ''SCAVusto'') (ustr ''SCAV'')"
  by (simp add: match_eval)

lemma short_line_split: "str_split (ustr ''SCAVusto'') = [ustr ''SCAVusto'']"
  by (simp add: str_split_def ustr_def isspace_def)

text \<open>
  C3.  A line is taken as a kill record only if the similarity ratio of the whole
  cleaned line exceeds 0.6 against both "Customs" and "SCAV": a line that fails either
  comparison (in particular one that fails both) adds nothing to the output.
\<close>

theorem unmatched_line_excluded:
  assumes "\<not> (6 / 10 < ratio (clean_ocr_line line) (ustr ''Customs'') \<and>
              6 / 10 < ratio (clean_ocr_line line) (ustr ''SCAV''))"
  shows "records_of_line line = [] \<and>
         kill_loop (line # lines) kill_data = kill_loop lines kill_data"
proof -
  have skip: "\<not> (fuzzy_match (clean_ocr_line line) (ustr ''Customs'') \<and>
                  fuzzy_match (clean_ocr_line line) (ustr ''SCAV'') \<and>
                  5 \<le> length (str_split (clean_ocr_line line)))"
    using assms unfolding fuzzy_match_def by blast
  have "kill_loop [line] [] = kill_loop [] []" using skip by (rule kill_loop_skip)
  then have "records_of_line line = []" by (simp add: records_of_line_def)
  moreover have "kill_loop (line # lines) kill_data = kill_loop lines kill_data"
    using skip by (rule kill_loop_skip)
  ultimately show ?thesis by simp
qed

theorem unmatched_line_excluded_witness:
  "\<not> (6 / 10 < ratio (clean_ocr_line (ustr ''12:34 Customs PMC SCAV AK-74'')) (ustr ''Customs'') \<and>
      6 / 10 < ratio (clean_ocr_line (ustr ''12:34 Customs PMC SCAV AK-74'')) (ustr ''SCAV'')) \<and>
   records_of_line (ustr ''12:34 Customs PMC SCAV AK-74'') = [] \<and>
   kill_loop [ustr ''12:34 Customs PMC SCAV AK-74''] [] = Inr []"
proof -
  have h: "\<not> (6 / 10 < ratio (clean_ocr_line (ustr ''12:34 Customs PMC SCAV AK-74'')) (ustr ''Customs'') \<and>
      6 / 10 < ratio (clean_ocr_line (ustr ''12:34 Customs PMC SCAV AK-74'')) (ustr ''SCAV''))"
    by (simp add: scenario_line_clean scenario_line_ratio_map)
  from unmatched_line_excluded [OF h, of "[]" "[]"] h show ?thesis by simp
qed

text \<open>
  C4.  A cleaned line that passes both comparisons but splits into fewer than 5 tokens
  yields no record and no error: the loop goes on with \<open>kill_data\<close> unchanged.
\<close>

theorem short_matched_line_dropped:
  assumes "fuzzy_match (clean_ocr_line line) (ustr ''Customs'')"
    and "fuzzy_match (clean_ocr_line line) (ustr ''SCAV'')"
    and "length (str_split (clean_ocr_line line)) < 5"
  shows "records_of_line line = [] \<and>
         kill_loop [line] kill_data = Inr kill_data \<and>
         kill_loop (line # lines) kill_data = kill_loop lines kill_data"
proof -
  have skip: "\<not> (fuzzy_match (clean_ocr_line line) (ustr ''Customs'') \<and>
                  fuzzy_match (clean_ocr_line line) (ustr ''SCAV'') \<and>
                  5 \<le> length (str_split (clean_ocr_line line)))"
    using assms(3) by simp
  have "kill_loop [line] [] = kill_loop [] []" using skip by (rule kill_loop_skip)
  then have "records_of_line line = []" by (simp add: records_of_line_def)
  moreover have "kill_loop [line] kill_data = kill_loop [] kill_data"
    using skip by (rule kill_loop_skip)
  moreover have "kill_loop (line # lines) kill_data = kill_loop lines kill_data"
    using skip by (rule kill_loop_skip)
  ultimately show ?thesis by simp
qed

theorem short_matched_line_dropped_witness:
  "fuzzy_match (clean_ocr_line (ustr ''SCAVusto'')) (ustr ''Customs'') \<and>
   fuzzy_match (clean_ocr_line (ustr ''SCAVusto'')) (ustr ''SCAV'') \<and>
   length (str_split (clean_ocr_line (ustr ''SCAVusto''))) < 5 \<and>
   records_of_line (ustr ''SCAVusto'') = [] \<and>
   kill_loop [ustr ''SCAVusto''] [] = Inr []"
proof -
  have a: "fuzzy_match (clean_ocr_line (ustr ''SCAVusto'')) (ustr ''Customs'')"
    by (simp add: short_line_clean short_line_map)
  have b: "fuzzy_match (clean_ocr_line (ustr ''SCAVusto'')) (ustr ''SCAV'')"
    by (simp add: short_line_clean short_line_faction)
  have c: "length (str_split (clean_ocr_line (ustr ''SCAVusto''))) < 5"
    by (simp add: short_line_clean short_line_split)
  from short_matched_line_dropped [OF a b c, of "[]" "[]"] a b c show ?thesis by simp
qed

text \<open>
  C8.  Every line of the text contributes zero or one record, and the output is the
  contributions of the lines put together in the order of the lines.
\<close>

theorem parse_kill_list_scan_order:
  "parse_kill_list ocr_text = Inr (concat (map records_of_line (str_splitlines ocr_text))) \<and>
   (\<forall>line. length (records_of_line line) \<le> 1)"
proof
  show "parse_kill_list ocr_text = Inr (concat (map records_of_line (str_splitlines ocr_text)))"
    by (simp add: parse_kill_list_def kill_loop_concat)
  show "\<forall>line. length (records_of_line line) \<le> 1"
    using kill_loop_step by blast
qed

text \<open>
  C9.  \<open>parse_kill_list\<close> returns a list for every string and raises nothing: the only
  operation in it that can raise is the indexing of the token list, and with 5 tokens or
  more the indices 1, 2 and 4 are in range.
\<close>

theorem parse_kill_list_total:
  "(\<exists>kill_data. parse_kill_list ocr_text = Inr kill_data) \<and>
   (\<forall>parts :: ustring list. 5 \<le> length parts \<longrightarrow>
      list_index parts 1 = Inr (parts ! 1) \<and> list_index parts 2 = Inr (parts ! 2) \<and>
      list_index parts 4 = Inr (parts ! 4))"
  by (simp add: parse_kill_list_def kill_loop_concat list_index_def)

theorem parse_kill_list_total_witness:
  "(\<exists>kill_data. parse_kill_list (ustr ''a b c d e'') = Inr kill_data) \<and>
   5 \<le> length (str_split (ustr ''a b c d e'')) \<and>
   list_index (str_split (ustr ''a b c d e'')) 1 = Inr (ustr ''b'') \<and>
   list_index (str_split (ustr ''a b c d e'')) 2 = Inr (ustr ''c'') \<and>
   list_index (str_split (ustr ''a b c d e'')) 4 = Inr (ustr ''e'')"
proof -
  have s: "str_split (ustr ''a b c d e'') = [ustr ''a'', ustr ''b'', ustr ''c'', ustr ''d'', ustr ''e'']"
    by (simp add: str_split_def ustr_def isspace_def)
  have l: "5 \<le> length (str_split (ustr ''a b c d e''))" by (simp add: s)
  from parse_kill_list_total [of "ustr ''a b c d e''"] l
  have "(\<exists>kill_data. parse_kill_list (ustr ''a b c d e'') = Inr kill_data) \<and>
        list_index (str_split (ustr ''a b c d e'')) 1 = Inr (str_split (ustr ''a b c d e'') ! 1) \<and>
        list_index (str_split (ustr ''a b c d e'')) 2 = Inr (str_split (ustr ''a b c d e'') ! 2) \<and>
        list_index (str_split (ustr ''a b c d e'')) 4 = Inr (str_split (ustr ''a b c d e'') ! 4)"
    by blast
  with l show ?thesis by (simp add: s)
qed

subsection \<open>The record branch is never taken\<close>

text \<open>
  No line passes both comparisons and has 5 tokens.  A ratio over 0.6 against "SCAV"
  needs more than \<open>0.3 * (n + 4)\<close> matches out of at most 4, so the line has at most 9
  characters; 5 tokens need 4 separators and 5 other characters, so it has exactly 9, and
  all of S, C, A, V are among the 5.  A ratio over 0.6 against "Customs" then needs 5
  matches, but S, A and V do not occur in "Customs" and a space does not either.
  (\<open>no_kill_line\<close> above.)  Hence the loop never appends.
\<close>

lemma kill_loop_never_appends: "kill_loop lines kill_data = Inr kill_data"
proof (induction lines)
  case Nil
  then show ?case by simp
next
  case (Cons line lines)
  have "\<not> (fuzzy_match (clean_ocr_line line) (ustr ''Customs'') \<and>
           fuzzy_match (clean_ocr_line line) (ustr ''SCAV'') \<and>
           5 \<le> length (str_split (clean_ocr_line line)))"
    using no_kill_line by blast
  then have "kill_loop (line # lines) kill_data = kill_loop lines kill_data"
    by (rule kill_loop_skip)
  with Cons show ?case by simp
qed

lemma parse_kill_list_never_emits: "parse_kill_list ocr_text = Inr []"
  by (simp add: parse_kill_list_def kill_loop_never_appends)

end
